theory Spec2Isabelle
  imports Main
begin

section \<open>A single-line terminal editor with history (input.py)\<close>

text \<open>
  The module reads keystrokes from a terminal in raw mode, edits one line in place and
  keeps the lines of earlier sessions in a shared list. The embedding follows the source
  function by function.

  \<^item> Python strings are \<open>string\<close>; a key returned by \<open>_getKey\<close> is a string of one
    character or a whole escape sequence. A character is a \<open>char\<close>, that is a code
    below 256; the module compares characters with the control characters and the
    ranges of its regular expression only, which all lie in that range.
  \<^item> Python integers (\<open>lineIdx\<close>, \<open>charIdx\<close>, cursor distances) are \<open>int\<close>; list
    indexing and slicing take an \<open>int\<close> and follow Python (negative indices count from
    the end, an index out of range raises \<open>IndexError\<close>, a slice is clipped).
  \<^item> Standard input is the list of characters the terminal delivers. \<open>sys.stdin.read(1)\<close>
    takes the first of them; on the empty list the call does not return (the terminal
    waits for the next keystroke), which the model reports as the outcome \<open>Blocked\<close>.
  \<^item> Standard output is the string of everything printed so far, kept in the field
    \<open>stdout\<close> beside the fields of the reader object.
  \<^item> An exception is a value: a raising function returns \<open>Inl (e, s)\<close> with the state
    \<open>s\<close> the object is left in, which matters because the list of lines is shared with
    the caller and survives the exception.
  Switching the terminal to raw mode and back (\<open>termios\<close>, \<open>tty\<close>) is outside the model.
\<close>

subsection \<open>Constants\<close>

definition ESCAPE :: string where
  "ESCAPE = [CHR 0x1B]"

definition CLEAR_LINE :: string where
  "CLEAR_LINE = CHR 0x1B # ''[K''"

definition DELETE :: string where
  "DELETE = CHR 0x1B # ''[3~''"

definition UP :: string where
  "UP = CHR 0x1B # ''[A''"

definition DOWN :: string where
  "DOWN = CHR 0x1B # ''[B''"

definition RIGHT :: string where
  "RIGHT = CHR 0x1B # ''[C''"

definition LEFT :: string where
  "LEFT = CHR 0x1B # ''[D''"

definition arrowKeys :: "string list" where
  "arrowKeys = [UP, DOWN, RIGHT, LEFT]"

definition BACKSPACE :: string where
  "BACKSPACE = [CHR 0x7F]"

definition INTERRUPT :: string where
  "INTERRUPT = [CHR 0x03]"

definition EOF :: string where
  "EOF = [CHR 0x04]"

text \<open>The carriage return \<open>"\r"\<close> that ends the loop of \<open>read\<close>, and the line feed.\<close>

definition CR :: string where
  "CR = [CHR 0x0D]"

definition LF :: string where
  "LF = [CHR 0x0A]"

lemmas key_defs = ESCAPE_def CLEAR_LINE_def DELETE_def UP_def DOWN_def RIGHT_def LEFT_def
  arrowKeys_def BACKSPACE_def INTERRUPT_def EOF_def CR_def LF_def

subsection \<open>Python built-ins used by the module\<close>

datatype error = KeyboardInterrupt | EOFError | IndexError | Exception string

text \<open>\<open>xs[i]\<close> and \<open>xs[i] = v\<close> on a list.\<close>

definition py_getitem :: "'a list \<Rightarrow> int \<Rightarrow> 'a option" where
  "py_getitem xs i =
     (let n = int (length xs); j = (if i < 0 then i + n else i)
      in if 0 \<le> j \<and> j < n then Some (xs ! nat j) else None)"

definition py_setitem :: "'a list \<Rightarrow> int \<Rightarrow> 'a \<Rightarrow> 'a list option" where
  "py_setitem xs i v =
     (let n = int (length xs); j = (if i < 0 then i + n else i)
      in if 0 \<le> j \<and> j < n then Some (xs[nat j := v]) else None)"

text \<open>The slices \<open>s[:i]\<close> and \<open>s[i:]\<close>.\<close>

definition slice_to :: "'a list \<Rightarrow> int \<Rightarrow> 'a list" where
  "slice_to s i = (if i < 0 then take (nat (int (length s) + i)) s else take (nat i) s)"

definition slice_from :: "'a list \<Rightarrow> int \<Rightarrow> 'a list" where
  "slice_from s i = (if i < 0 then drop (nat (int (length s) + i)) s else drop (nat i) s)"

text \<open>\<open>str(n)\<close> on an integer, as the f-strings of \<open>_moveCursorRight\<close> format it.\<close>

definition digit_char :: "nat \<Rightarrow> char" where
  "digit_char d = char_of (48 + d)"

fun str_nat :: "nat \<Rightarrow> string" where
  "str_nat n = (if n < 10 then [digit_char n] else str_nat (n div 10) @ [digit_char (n mod 10)])"

declare str_nat.simps [simp del]

definition str_int :: "int \<Rightarrow> string" where
  "str_int i = (if i < 0 then CHR ''-'' # str_nat (nat (- i)) else str_nat (nat i))"

text \<open>\<open>hex(ord(c))\<close>: \<open>ord\<close> is never negative, so \<open>hex\<close> is modelled on \<open>nat\<close>.\<close>

definition hex_char :: "nat \<Rightarrow> char" where
  "hex_char d = (if d < 10 then char_of (48 + d) else char_of (87 + d))"

fun hex_digits :: "nat \<Rightarrow> string" where
  "hex_digits n = (if n < 16 then [hex_char n] else hex_digits (n div 16) @ [hex_char (n mod 16)])"

declare hex_digits.simps [simp del]

definition hex :: "nat \<Rightarrow> string" where
  "hex n = ''0x'' @ hex_digits n"

definition ord :: "char \<Rightarrow> nat" where
  "ord c = of_char c"

text \<open>\<open>sep.join(xs)\<close>.\<close>

fun join :: "string \<Rightarrow> string list \<Rightarrow> string" where
  "join sep [] = []"
| "join sep [x] = x"
| "join sep (x # y # ys) = x @ sep @ join sep (y # ys)"

subsection \<open>The regular expression \<open>ESCAPE_SEQ\<close>\<close>

text \<open>
  \<^verbatim>\<open>^\x1B(?:[@-Z\\-_]|\[[0-?]*[ -/]*[@-~])$\<close>: the escape character, then either one
  character of \<open>@-Z\<close> or of \<open>\-_\<close>, or \<open>[\<close> with parameter characters \<open>0-?\<close>,
  intermediate characters \<open>space-/\<close> and one final character \<open>@-~\<close>. The three classes
  of the second alternative are disjoint, so the greedy stars take the longest runs.
\<close>

definition in_class :: "char \<Rightarrow> char \<Rightarrow> char \<Rightarrow> bool" where
  "in_class lo hi c = (ord lo \<le> ord c \<and> ord c \<le> ord hi)"

definition csi_tail :: "string \<Rightarrow> bool" where
  "csi_tail r =
     (case dropWhile (in_class CHR '' '' CHR ''/'') (dropWhile (in_class CHR ''0'' CHR ''?'') r) of
        [f] \<Rightarrow> in_class CHR ''@'' CHR ''~'' f
      | _ \<Rightarrow> False)"

definition ESCAPE_SEQ_full :: "string \<Rightarrow> bool" where
  "ESCAPE_SEQ_full k =
     (case k of
        [] \<Rightarrow> False
      | e # r \<Rightarrow> [e] = ESCAPE \<and>
          (case r of
             [] \<Rightarrow> False
           | c # r' \<Rightarrow>
               (r' = [] \<and> (in_class CHR ''@'' CHR ''Z'' c \<or> in_class CHR 0x5C CHR ''_'' c))
               \<or> (c = CHR ''['' \<and> csi_tail r')))"

text \<open>
  \<open>ESCAPE_SEQ.match(k)\<close>. Python's \<open>$\<close> also matches just before a line feed that ends
  the string.
\<close>

definition ESCAPE_SEQ_match :: "string \<Rightarrow> bool" where
  "ESCAPE_SEQ_match k =
     (ESCAPE_SEQ_full k \<or> (k \<noteq> [] \<and> [last k] = LF \<and> ESCAPE_SEQ_full (butlast k)))"

subsection \<open>Reading a key\<close>

text \<open>
  \<open>_getKey\<close> on the characters still to come: \<open>Inr (k, rest)\<close> is the key and what is
  left of the input, \<open>Inl k\<close> says that the input ran out with \<open>k\<close> read so far, where
  \<open>_getChar\<close> waits. \<open>getEscape\<close> is the \<open>while\<close> loop of \<open>_getKey\<close>.
\<close>

fun getEscape :: "string \<Rightarrow> string \<Rightarrow> string + string \<times> string" where
  "getEscape k [] = (if ESCAPE_SEQ_match k then Inr (k, []) else Inl k)"
| "getEscape k (c # cs) = (if ESCAPE_SEQ_match k then Inr (k, c # cs) else getEscape (k @ [c]) cs)"

definition getKey :: "string \<Rightarrow> string + string \<times> string" where
  "getKey inp =
     (case inp of
        [] \<Rightarrow> Inl []
      | c # cs \<Rightarrow> if [c] = ESCAPE then getEscape [c] cs else Inr ([c], cs))"

subsection \<open>Terminal output\<close>

text \<open>Each function returns the text it prints.\<close>

definition printHex :: "string \<Rightarrow> string" where
  "printHex s = join '' '' (map (\<lambda>c. hex (ord c)) s) @ LF"

definition moveCursorRight :: "int \<Rightarrow> string" where
  "moveCursorRight distRight =
     (if distRight > 0 then CHR 0x1B # ''['' @ str_int distRight @ ''C''
      else if distRight < 0 then CHR 0x1B # ''['' @ str_int (- distRight) @ ''D''
      else [])"

definition resetLine :: "string \<Rightarrow> string" where
  "resetLine ln = CR @ ln @ CLEAR_LINE"

definition bound :: "int \<Rightarrow> int option \<Rightarrow> int option \<Rightarrow> int" where
  "bound val lowerBound upperBound =
     (let val1 = (case lowerBound of None \<Rightarrow> val | Some lo \<Rightarrow> max val lo)
      in case upperBound of None \<Rightarrow> val1 | Some hi \<Rightarrow> min val1 hi)"

subsection \<open>The reader object\<close>

record reader =
  lines :: "string list"
  line :: string
  lineIdx :: int
  charIdx :: int
  used :: bool
  debug :: bool
  prompt :: string
  stdout :: string

type_synonym result = "error \<times> reader + reader"

definition emit :: "string \<Rightarrow> reader \<Rightarrow> reader" where
  "emit txt s = s\<lparr>stdout := stdout s @ txt\<rparr>"

text \<open>
  \<open>_SingleLineReader.__init__\<close>: the new empty line is appended to the list it was
  given, which is the list of the caller.
\<close>

definition SingleLineReader :: "string list \<Rightarrow> string \<Rightarrow> bool \<Rightarrow> reader" where
  "SingleLineReader pastLines pr dbg =
     \<lparr>lines = pastLines @ [[]], line = [], lineIdx = int (length (pastLines @ [[]])) - 1,
      charIdx = 0, used = False, debug = dbg, prompt = pr, stdout = []\<rparr>"

definition use :: "reader \<Rightarrow> result" where
  "use s = (if used s then Inl (Exception ''using line reader multiple times'', s)
            else Inr (s\<lparr>used := True\<rparr>))"

definition resetLineAndCursor :: "reader \<Rightarrow> reader" where
  "resetLineAndCursor s =
     emit (moveCursorRight (charIdx s - int (length (line s))))
       (emit (resetLine (prompt s @ line s)) s)"

definition moveLineDown :: "reader \<Rightarrow> int \<Rightarrow> result" where
  "moveLineDown s distDown =
     (let s1 = s\<lparr>lineIdx := bound (lineIdx s + distDown) (Some 0) (Some (int (length (lines s)) - 1))\<rparr>
      in case py_getitem (lines s1) (lineIdx s1) of
           None \<Rightarrow> Inl (IndexError, s1)
         | Some l \<Rightarrow> Inr (resetLineAndCursor (s1\<lparr>line := l, charIdx := int (length l)\<rparr>)))"

definition moveCharRight :: "reader \<Rightarrow> int \<Rightarrow> reader" where
  "moveCharRight s distRight =
     (let lastIdx = charIdx s;
          s1 = s\<lparr>charIdx := bound (charIdx s + distRight) (Some 0) (Some (int (length (line s))))\<rparr>
      in emit (moveCursorRight (charIdx s1 - lastIdx)) s1)"

definition doBackspace :: "reader \<Rightarrow> reader" where
  "doBackspace s =
     (if charIdx s > 0
      then resetLineAndCursor
             (s\<lparr>line := slice_to (line s) (charIdx s - 1) @ slice_from (line s) (charIdx s),
                charIdx := charIdx s - 1\<rparr>)
      else s)"

definition doDelete :: "reader \<Rightarrow> reader" where
  "doDelete s =
     (if charIdx s < int (length (line s))
      then resetLineAndCursor
             (s\<lparr>line := slice_to (line s) (charIdx s) @ slice_from (line s) (charIdx s + 1)\<rparr>)
      else s)"

definition insertChar :: "reader \<Rightarrow> string \<Rightarrow> reader" where
  "insertChar s k =
     resetLineAndCursor
       (s\<lparr>line := slice_to (line s) (charIdx s) @ k @ slice_from (line s) (charIdx s),
          charIdx := charIdx s + 1\<rparr>)"

text \<open>\<open>self.lines[-1] = self.line\<close>.\<close>

definition storeLine :: "reader \<Rightarrow> result" where
  "storeLine s =
     (case py_setitem (lines s) (- 1) (line s) of
        None \<Rightarrow> Inl (IndexError, s)
      | Some ls \<Rightarrow> Inr (s\<lparr>lines := ls\<rparr>))"

text \<open>
  The body of the \<open>while\<close> loop of \<open>read\<close> for a key \<open>k\<close> other than \<open>"\r"\<close>.
  \<open>editKey\<close> is the \<open>else\<close> branch up to the assignment to \<open>self.lines[-1]\<close>.
\<close>

definition editKey :: "reader \<Rightarrow> string \<Rightarrow> result" where
  "editKey s k =
     (if k = BACKSPACE then Inr (doBackspace s)
      else if k = DELETE then Inr (doDelete s)
      else if k = INTERRUPT then Inl (KeyboardInterrupt, s)
      else if k = EOF then Inl (EOFError, s)
      else (case k of
              [] \<Rightarrow> Inl (IndexError, s)
            | c # _ \<Rightarrow>
                if [c] = ESCAPE
                then Inl (Exception (''unknown ANSI escape: '' @ join '' '' (map (\<lambda>c. hex (ord c)) k)), s)
                else Inr (insertChar s k)))"

definition loopBody :: "reader \<Rightarrow> string \<Rightarrow> result" where
  "loopBody s0 k =
     (let s = (if debug s0 then emit (printHex k) (emit (CR @ CLEAR_LINE) s0) else s0)
      in if k \<in> set arrowKeys then
           (if k = UP then moveLineDown s (- 1)
            else if k = DOWN then moveLineDown s 1
            else if k = LEFT then Inr (moveCharRight s (- 1))
            else if k = RIGHT then Inr (moveCharRight s 1)
            else Inr s)
         else
           (case editKey s k of
              Inl err \<Rightarrow> Inl err
            | Inr s1 \<Rightarrow> storeLine s1))"

subsection \<open>The read loop\<close>

datatype outcome = Accepted string | Raised error | Blocked string

text \<open>
  \<open>readLoop\<close> is the \<open>while\<close> loop of \<open>read\<close> with what follows it: on \<open>"\r"\<close> the line
  is stored, a line feed is printed and the line is returned.
\<close>

function readLoop :: "reader \<Rightarrow> string \<Rightarrow> outcome \<times> reader" where
  "readLoop s inp =
     (case getKey inp of
        Inl pending \<Rightarrow> (Blocked pending, s)
      | Inr (k, rest) \<Rightarrow>
          if k \<noteq> CR then
            (case loopBody s k of
               Inl (err, s1) \<Rightarrow> (Raised err, s1)
             | Inr s1 \<Rightarrow> readLoop s1 rest)
          else
            (case storeLine s of
               Inl (err, s1) \<Rightarrow> (Raised err, s1)
             | Inr s1 \<Rightarrow> (Accepted (line s1), emit LF s1)))"
  by pat_completeness auto
termination
proof -
  have esc: "length rest \<le> length inp"
    if "getEscape k inp = Inr (k', rest)" for k inp k' rest
    using that by (induction k inp rule: getEscape.induct) (auto split: if_splits)
  have key: "length rest < length inp"
    if "getKey inp = Inr (k', rest)" for inp k' rest
    using that by (auto simp: getKey_def split: list.splits if_splits dest: esc)
  show ?thesis
    by (relation "measure (\<lambda>(s, inp). length inp)") (auto dest: key)
qed

declare readLoop.simps [simp del]

definition read :: "reader \<Rightarrow> string \<Rightarrow> outcome \<times> reader" where
  "read s inp =
     (case use s of
        Inl (err, s1) \<Rightarrow> (Raised err, s1)
      | Inr s1 \<Rightarrow> readLoop (emit (prompt s1) s1) inp)"

text \<open>
  \<open>Input.getLine\<close> on an \<open>Input\<close> object whose list of lines is \<open>ls\<close>: the reader works
  on that very list, so the \<open>lines\<close> of the state returned are the lines of the \<open>Input\<close>
  object afterwards.
\<close>

definition getLine :: "string list \<Rightarrow> bool \<Rightarrow> string \<Rightarrow> string \<Rightarrow> outcome \<times> reader" where
  "getLine ls dbg pr inp = read (SingleLineReader ls pr dbg) inp"

subsection \<open>Auxiliary notions\<close>

text \<open>The state a call leaves behind, whether it returned or raised.\<close>

definition state_of :: "result \<Rightarrow> reader" where
  "state_of r = (case r of Inl (e, s) \<Rightarrow> s | Inr s \<Rightarrow> s)"

text \<open>The state after the debugging output that starts the loop body.\<close>

definition echo :: "reader \<Rightarrow> string \<Rightarrow> reader" where
  "echo s k = (if debug s then emit (printHex k) (emit (CR @ CLEAR_LINE) s) else s)"

text \<open>
  The invariants of a session: the cursor lies within the line; the history is not empty
  and the active index points into it; and at the newest entry the buffer is the stored
  entry.
\<close>

definition cursor_ok :: "reader \<Rightarrow> bool" where
  "cursor_ok s = (0 \<le> charIdx s \<and> charIdx s \<le> int (length (line s)))"

definition hist_ok :: "reader \<Rightarrow> bool" where
  "hist_ok s = (lines s \<noteq> [] \<and> 0 \<le> lineIdx s \<and> lineIdx s < int (length (lines s)))"

definition newest_ok :: "reader \<Rightarrow> bool" where
  "newest_ok s = (hist_ok s \<and> (lineIdx s = int (length (lines s)) - 1 \<longrightarrow> line s = last (lines s)))"


section \<open>Properties of the model\<close>

subsection \<open>Decoding is stable under more input\<close>

lemma getEscape_append:
  "getEscape k inp = Inr (k', rest) \<Longrightarrow> getEscape k (inp @ nxt) = Inr (k', rest @ nxt)"
proof (induction k inp rule: getEscape.induct)
  case (1 k)
  then show ?case by (cases nxt) (auto split: if_splits)
next
  case (2 k c cs)
  then show ?case by (auto split: if_splits)
qed

lemma getKey_append:
  "getKey inp = Inr (k, rest) \<Longrightarrow> getKey (inp @ nxt) = Inr (k, rest @ nxt)"
  by (auto simp: getKey_def split: list.splits if_splits dest: getEscape_append)

lemma getEscape_pending:
  "getEscape k inp = Inl p \<Longrightarrow> p = k @ inp"
  by (induction k inp rule: getEscape.induct) (auto split: if_splits)

lemma getKey_pending_Nil:
  "getKey inp = Inl [] \<Longrightarrow> inp = []"
  by (auto simp: getKey_def split: list.splits if_splits dest: getEscape_pending)

lemma getKey_Nil [simp]: "getKey [] = Inl []"
  by (simp add: getKey_def)

lemma readLoop_Nil [simp]: "readLoop s [] = (Blocked [], s)"
  by (simp add: readLoop.simps)

lemma readLoop_append:
  "readLoop s pre = (Blocked [], s1) \<Longrightarrow> readLoop s (pre @ nxt) = readLoop s1 nxt"
proof (induction s pre rule: readLoop.induct)
  case (1 s inp)
  show ?case
  proof (cases "getKey inp")
    case (Inl p)
    with "1.prems" have "p = []" "s1 = s" by (simp_all add: readLoop.simps [of s inp])
    with Inl have "inp = []" by (simp add: getKey_pending_Nil)
    with \<open>s1 = s\<close> show ?thesis by simp
  next
    case (Inr kr)
    obtain k rest where kr: "kr = (k, rest)" by (cases kr)
    have gk: "getKey (inp @ nxt) = Inr (k, rest @ nxt)"
      using Inr kr by (simp add: getKey_append)
    show ?thesis
    proof (cases "k = CR")
      case True
      with "1.prems" Inr kr show ?thesis
        by (simp add: readLoop.simps [of s inp] split: sum.splits prod.splits)
    next
      case False
      show ?thesis
      proof (cases "loopBody s k")
        case (Inl es)
        with "1.prems" Inr kr False show ?thesis
          by (simp add: readLoop.simps [of s inp] split: prod.splits)
      next
        case (Inr s2)
        from "1.prems" \<open>getKey inp = Inr kr\<close> kr False Inr
        have "readLoop s2 rest = (Blocked [], s1)"
          by (simp add: readLoop.simps [of s inp])
        then have "readLoop s2 (rest @ nxt) = readLoop s1 nxt"
          using "1.IH" [OF \<open>getKey inp = Inr kr\<close> kr [symmetric] False Inr] by simp
        then show ?thesis
          using gk False Inr by (simp add: readLoop.simps [of s "inp @ nxt"])
      qed
    qed
  qed
qed

lemma readLoop_key:
  assumes "getKey k = Inr (k, [])"
  shows "readLoop s (k @ nxt) =
     (if k \<noteq> CR then
        (case loopBody s k of Inl (err, s1) \<Rightarrow> (Raised err, s1) | Inr s1 \<Rightarrow> readLoop s1 nxt)
      else
        (case storeLine s of Inl (err, s1) \<Rightarrow> (Raised err, s1)
         | Inr s1 \<Rightarrow> (Accepted (line s1), emit LF s1)))"
  using getKey_append [OF assms, of nxt] by (simp add: readLoop.simps [of s "k @ nxt"])

text \<open>A property kept by every step of the loop holds in every state the loop ends in.\<close>

lemma readLoop_invariant:
  assumes "P s"
    and "\<And>s k e s'. P s \<Longrightarrow> loopBody s k = Inl (e, s') \<Longrightarrow> P s'"
    and "\<And>s k s'. P s \<Longrightarrow> loopBody s k = Inr s' \<Longrightarrow> P s'"
    and "\<And>s e s'. P s \<Longrightarrow> storeLine s = Inl (e, s') \<Longrightarrow> P s'"
    and "\<And>s s'. P s \<Longrightarrow> storeLine s = Inr s' \<Longrightarrow> P (emit LF s')"
  shows "P (snd (readLoop s inp))"
  using assms(1)
proof (induction s inp rule: readLoop.induct)
  case (1 s inp)
  show ?case
  proof (cases "getKey inp")
    case (Inl p)
    with "1.prems" show ?thesis by (simp add: readLoop.simps [of s inp])
  next
    case (Inr kr)
    obtain k rest where kr: "kr = (k, rest)" by (cases kr)
    show ?thesis
    proof (cases "k = CR")
      case True
      with "1.prems" Inr kr assms(4,5) [of s] show ?thesis
        by (auto simp: readLoop.simps [of s inp] split: sum.splits prod.splits)
    next
      case False
      show ?thesis
      proof (cases "loopBody s k")
        case (Inl es)
        with "1.prems" \<open>getKey inp = Inr kr\<close> kr False assms(2) [of s k] show ?thesis
          by (auto simp: readLoop.simps [of s inp] split: prod.splits)
      next
        case (Inr s2)
        with "1.prems" assms(3) have "P s2" by blast
        then have "P (snd (readLoop s2 rest))"
          using "1.IH" [OF \<open>getKey inp = Inr kr\<close> kr [symmetric] False Inr] by simp
        then show ?thesis
          using \<open>getKey inp = Inr kr\<close> kr False Inr by (simp add: readLoop.simps [of s inp])
      qed
    qed
  qed
qed

subsection \<open>What one step of the loop keeps\<close>

lemma state_of_simps [simp]: "state_of (Inl (e, s)) = s" "state_of (Inr s) = s"
  by (simp_all add: state_of_def)

lemma py_setitem_last:
  "py_setitem xs (- 1) v = (if xs = [] then None else Some (butlast xs @ [v]))"
proof (cases xs rule: rev_cases)
  case Nil
  then show ?thesis by (simp add: py_setitem_def)
next
  case (snoc ys y)
  then show ?thesis by (simp add: py_setitem_def Let_def nat_add_distrib)
qed

lemma storeLine_eq:
  "storeLine s = (if lines s = [] then Inl (IndexError, s)
                  else Inr (s\<lparr>lines := butlast (lines s) @ [line s]\<rparr>))"
  by (simp add: storeLine_def py_setitem_last)

text \<open>
  A property kept by the parts of the loop body is kept by the body. An editing key
  changes the line first and stores it afterwards, so the two are taken together.
\<close>

lemma loopBody_preserves:
  assumes "P s"
    and em: "\<And>s t. P s \<Longrightarrow> P (emit t s)"
    and mv: "\<And>s d. P s \<Longrightarrow> P (state_of (moveLineDown s d))"
    and ch: "\<And>s d. P s \<Longrightarrow> P (moveCharRight s d)"
    and er: "\<And>s k e s'. P s \<Longrightarrow> editKey s k = Inl (e, s') \<Longrightarrow> P s'"
    and ed: "\<And>s k s'. P s \<Longrightarrow> editKey s k = Inr s' \<Longrightarrow> P (state_of (storeLine s'))"
  shows "P (state_of (loopBody s k))"
proof -
  define s1 where "s1 = (if debug s then emit (printHex k) (emit (CR @ CLEAR_LINE) s) else s)"
  have P1: "P s1" using assms(1) em by (simp add: s1_def)
  have body: "loopBody s k =
      (if k \<in> set arrowKeys then
           (if k = UP then moveLineDown s1 (- 1)
            else if k = DOWN then moveLineDown s1 1
            else if k = LEFT then Inr (moveCharRight s1 (- 1))
            else if k = RIGHT then Inr (moveCharRight s1 1)
            else Inr s1)
         else
           (case editKey s1 k of
              Inl err \<Rightarrow> Inl err
            | Inr s2 \<Rightarrow> storeLine s2))"
    by (simp add: loopBody_def s1_def Let_def)
  show ?thesis
  proof (cases "k \<in> set arrowKeys")
    case True
    then show ?thesis using P1 mv [of s1] ch [of s1] by (simp add: body)
  next
    case False
    show ?thesis
    proof (cases "editKey s1 k")
      case (Inl es)
      then show ?thesis using False P1 er [of s1 k "fst es" "snd es"] by (cases es) (simp add: body)
    next
      case (Inr s2)
      then show ?thesis using False P1 ed [of s1 k s2] by (simp add: body)
    qed
  qed
qed

lemma emit_fields [simp]:
  "lines (emit t s) = lines s" "line (emit t s) = line s" "lineIdx (emit t s) = lineIdx s"
  "charIdx (emit t s) = charIdx s" "used (emit t s) = used s" "debug (emit t s) = debug s"
  "prompt (emit t s) = prompt s" "stdout (emit t s) = stdout s @ t"
  by (simp_all add: emit_def)

lemma resetLineAndCursor_fields [simp]:
  "lines (resetLineAndCursor s) = lines s" "line (resetLineAndCursor s) = line s"
  "lineIdx (resetLineAndCursor s) = lineIdx s" "charIdx (resetLineAndCursor s) = charIdx s"
  "used (resetLineAndCursor s) = used s" "debug (resetLineAndCursor s) = debug s"
  "prompt (resetLineAndCursor s) = prompt s"
  by (simp_all add: resetLineAndCursor_def)

lemma moveCharRight_fields [simp]:
  "lines (moveCharRight s d) = lines s" "line (moveCharRight s d) = line s"
  "lineIdx (moveCharRight s d) = lineIdx s" "used (moveCharRight s d) = used s"
  by (simp_all add: moveCharRight_def Let_def)

lemma moveLineDown_fields [simp]:
  "lines (state_of (moveLineDown s d)) = lines s"
  "used (state_of (moveLineDown s d)) = used s"
  by (simp_all add: moveLineDown_def Let_def split: option.splits)

lemma editKey_raises: "editKey s k = Inl (e, s') \<Longrightarrow> s' = s"
  by (auto simp: editKey_def split: if_splits list.splits)

lemma editKey_fields:
  assumes "editKey s k = Inr s'"
  shows "lines s' = lines s" "lineIdx s' = lineIdx s" "used s' = used s"
  using assms
  by (auto simp: editKey_def doBackspace_def doDelete_def insertChar_def
      split: if_splits list.splits)

lemma storeLine_fields [simp]:
  "length (lines (state_of (storeLine s))) = length (lines s)"
  "butlast (lines (state_of (storeLine s))) = butlast (lines s)"
  "used (state_of (storeLine s)) = used s"
  "line (state_of (storeLine s)) = line s"
  "lineIdx (state_of (storeLine s)) = lineIdx s"
  "charIdx (state_of (storeLine s)) = charIdx s"
  by (simp_all add: storeLine_eq)

lemma loopBody_used: "used (state_of (loopBody s k)) = used s"
  by (rule loopBody_preserves [where P = "\<lambda>s'. used s' = used s"])
     (auto simp: editKey_fields dest: editKey_raises)

lemma loopBody_lines:
  "length (lines (state_of (loopBody s k))) = length (lines s)
   \<and> butlast (lines (state_of (loopBody s k))) = butlast (lines s)"
  by (rule loopBody_preserves [where P = "\<lambda>s'. length (lines s') = length (lines s)
       \<and> butlast (lines s') = butlast (lines s)"])
     (auto simp: editKey_fields dest: editKey_raises)

lemma loopBody_arrow:
  "k \<in> set arrowKeys \<Longrightarrow> lines (state_of (loopBody s k)) = lines s"
  by (simp add: loopBody_def Let_def)

lemma readLoop_preserves:
  assumes "P s"
    and "\<And>s k. P s \<Longrightarrow> P (state_of (loopBody s k))"
    and "\<And>s. P s \<Longrightarrow> P (state_of (storeLine s))"
    and "\<And>s t. P s \<Longrightarrow> P (emit t s)"
  shows "P (snd (readLoop s inp))"
proof (rule readLoop_invariant [where P = P, OF assms(1)])
  fix s k e s' assume "P s" "loopBody s k = Inl (e, s')"
  then show "P s'" using assms(2) [of s k] by simp
next
  fix s k s' assume "P s" "loopBody s k = Inr s'"
  then show "P s'" using assms(2) [of s k] by simp
next
  fix s e s' assume "P s" "storeLine s = Inl (e, s')"
  then show "P s'" using assms(3) [of s] by simp
next
  fix s s' assume "P s" "storeLine s = Inr s'"
  then show "P (emit LF s')" using assms(3) [of s] assms(4) by simp
qed

subsection \<open>Invariants of a session\<close>

lemma bound_range:
  "lo \<le> hi \<Longrightarrow> lo \<le> bound v (Some lo) (Some hi) \<and> bound v (Some lo) (Some hi) \<le> hi"
  by (simp add: bound_def Let_def)

lemma cursor_ok_emit [simp]: "cursor_ok (emit t s) = cursor_ok s"
  by (simp add: cursor_ok_def)

lemma cursor_ok_reset [simp]: "cursor_ok (resetLineAndCursor s) = cursor_ok s"
  by (simp add: cursor_ok_def)

lemma cursor_ok_moveLineDown: "cursor_ok s \<Longrightarrow> cursor_ok (state_of (moveLineDown s d))"
  by (simp add: moveLineDown_def Let_def cursor_ok_def split: option.splits)

lemma cursor_ok_moveCharRight: "cursor_ok s \<Longrightarrow> cursor_ok (moveCharRight s d)"
  using bound_range [of 0 "int (length (line s))" "charIdx s + d"]
  by (simp add: moveCharRight_def Let_def cursor_ok_def)

lemma cursor_ok_doBackspace: "cursor_ok s \<Longrightarrow> cursor_ok (doBackspace s)"
  by (auto simp: doBackspace_def cursor_ok_def slice_to_def slice_from_def)

lemma cursor_ok_doDelete: "cursor_ok s \<Longrightarrow> cursor_ok (doDelete s)"
  by (auto simp: doDelete_def cursor_ok_def slice_to_def slice_from_def)

lemma cursor_ok_insertChar: "cursor_ok s \<Longrightarrow> k \<noteq> [] \<Longrightarrow> cursor_ok (insertChar s k)"
  by (cases k) (auto simp: insertChar_def cursor_ok_def slice_to_def slice_from_def)

lemma cursor_ok_editKey: "cursor_ok s \<Longrightarrow> editKey s k = Inr s' \<Longrightarrow> cursor_ok s'"
  by (auto simp: editKey_def cursor_ok_doBackspace cursor_ok_doDelete cursor_ok_insertChar
      split: if_splits list.splits)

lemma cursor_ok_storeLine [simp]: "cursor_ok (state_of (storeLine s)) = cursor_ok s"
  by (simp add: cursor_ok_def)

lemma cursor_ok_loopBody: "cursor_ok s \<Longrightarrow> cursor_ok (state_of (loopBody s k))"
  by (rule loopBody_preserves [where P = cursor_ok])
     (auto simp: cursor_ok_moveLineDown cursor_ok_moveCharRight cursor_ok_editKey
       dest: editKey_raises)

lemma cursor_ok_readLoop: "cursor_ok s \<Longrightarrow> cursor_ok (snd (readLoop s inp))"
  by (rule readLoop_preserves [where P = cursor_ok]) (simp_all add: cursor_ok_loopBody)

lemma hist_ok_emit [simp]: "hist_ok (emit t s) = hist_ok s"
  by (simp add: hist_ok_def)

lemma hist_ok_moveLineDown: "hist_ok s \<Longrightarrow> hist_ok (state_of (moveLineDown s d))"
  using bound_range [of 0 "int (length (lines s)) - 1" "lineIdx s + d"]
  by (auto simp: moveLineDown_def Let_def hist_ok_def split: option.splits)

lemma hist_ok_moveCharRight [simp]: "hist_ok (moveCharRight s d) = hist_ok s"
  by (simp add: hist_ok_def)

lemma hist_ok_store_edit: "hist_ok s \<Longrightarrow> editKey s k = Inr s' \<Longrightarrow> hist_ok (state_of (storeLine s'))"
  using editKey_fields [of s k s'] by (simp add: hist_ok_def storeLine_eq)

lemma hist_ok_loopBody: "hist_ok s \<Longrightarrow> hist_ok (state_of (loopBody s k))"
  by (rule loopBody_preserves [where P = hist_ok])
     (auto simp: hist_ok_moveLineDown hist_ok_store_edit dest: editKey_raises)

lemma moveLineDown_ok:
  assumes "hist_ok s"
  shows "moveLineDown s d = Inr (resetLineAndCursor (s\<lparr>
           lineIdx := bound (lineIdx s + d) (Some 0) (Some (int (length (lines s)) - 1)),
           line := lines s ! nat (bound (lineIdx s + d) (Some 0) (Some (int (length (lines s)) - 1))),
           charIdx := int (length (lines s ! nat (bound (lineIdx s + d) (Some 0) (Some (int (length (lines s)) - 1)))))\<rparr>))"
  using assms bound_range [of 0 "int (length (lines s)) - 1" "lineIdx s + d"]
  by (simp add: moveLineDown_def Let_def hist_ok_def py_getitem_def)

lemma newest_ok_emit [simp]: "newest_ok (emit t s) = newest_ok s"
  by (simp add: newest_ok_def hist_ok_def)

lemma newest_ok_moveLineDown: "newest_ok s \<Longrightarrow> newest_ok (state_of (moveLineDown s d))"
proof -
  assume a: "newest_ok s"
  then have h: "hist_ok s" by (simp add: newest_ok_def)
  have "hist_ok (state_of (moveLineDown s d))" using h by (rule hist_ok_moveLineDown)
  then show ?thesis
    using h by (auto simp: newest_ok_def moveLineDown_ok [OF h] hist_ok_def last_conv_nth nat_diff_distrib)
qed

lemma newest_ok_moveCharRight [simp]: "newest_ok (moveCharRight s d) = newest_ok s"
  by (simp add: newest_ok_def)

lemma newest_ok_store: "hist_ok s \<Longrightarrow> newest_ok (state_of (storeLine s))"
  by (simp add: newest_ok_def hist_ok_def storeLine_eq)

lemma newest_ok_hist: "newest_ok s \<Longrightarrow> hist_ok s"
  by (simp add: newest_ok_def)

lemma newest_ok_store_edit:
  assumes "newest_ok s" "editKey s k = Inr s'"
  shows "newest_ok (state_of (storeLine s'))"
proof -
  have "hist_ok s'"
    using assms editKey_fields [of s k s'] by (simp add: newest_ok_def hist_ok_def)
  then show ?thesis by (rule newest_ok_store)
qed

lemma newest_ok_loopBody: "newest_ok s \<Longrightarrow> newest_ok (state_of (loopBody s k))"
  by (rule loopBody_preserves [where P = newest_ok])
     (auto simp: newest_ok_moveLineDown newest_ok_store_edit dest: editKey_raises)

lemma newest_ok_readLoop: "newest_ok s \<Longrightarrow> newest_ok (snd (readLoop s inp))"
  by (rule readLoop_preserves [where P = newest_ok])
     (simp_all add: newest_ok_loopBody newest_ok_store newest_ok_hist)

subsection \<open>A session from its start\<close>

lemma readLoop_lines:
  "length (lines (snd (readLoop s inp))) = length (lines s)
   \<and> butlast (lines (snd (readLoop s inp))) = butlast (lines s)"
  by (rule readLoop_preserves [where P = "\<lambda>s'. length (lines s') = length (lines s)
       \<and> butlast (lines s') = butlast (lines s)"])
     (simp_all add: loopBody_lines)

lemma readLoop_used: "used (snd (readLoop s inp)) = used s"
  by (rule readLoop_preserves [where P = "\<lambda>s'. used s' = used s"])
     (simp_all add: loopBody_used)

lemma read_fresh:
  "read (SingleLineReader past pr dbg) inp =
     readLoop (emit pr ((SingleLineReader past pr dbg)\<lparr>used := True\<rparr>)) inp"
  by (simp add: read_def use_def SingleLineReader_def)

lemma fresh_ok:
  "cursor_ok (emit pr ((SingleLineReader past pr dbg)\<lparr>used := True\<rparr>))"
  "newest_ok (emit pr ((SingleLineReader past pr dbg)\<lparr>used := True\<rparr>))"
  "lines (emit pr ((SingleLineReader past pr dbg)\<lparr>used := True\<rparr>)) = past @ [[]]"
  by (simp_all add: cursor_ok_def newest_ok_def hist_ok_def SingleLineReader_def)

lemma read_append:
  "read (SingleLineReader past pr dbg) pre = (Blocked [], s) \<Longrightarrow>
   read (SingleLineReader past pr dbg) (pre @ nxt) = readLoop s nxt"
  by (simp add: read_fresh readLoop_append)

lemma read_reaches:
  assumes "read (SingleLineReader past pr dbg) inp = (out, s)"
  shows "cursor_ok s" "newest_ok s" "hist_ok s"
    "length (lines s) = Suc (length past)" "butlast (lines s) = past"
proof -
  let ?s0 = "emit pr ((SingleLineReader past pr dbg)\<lparr>used := True\<rparr>)"
  have s: "s = snd (readLoop ?s0 inp)" using assms by (simp add: read_fresh)
  show "cursor_ok s" unfolding s by (rule cursor_ok_readLoop) (rule fresh_ok)
  show "newest_ok s" unfolding s by (rule newest_ok_readLoop) (rule fresh_ok)
  then show "hist_ok s" by (rule newest_ok_hist)
  show "length (lines s) = Suc (length past)" "butlast (lines s) = past"
    unfolding s using readLoop_lines [of ?s0 inp] by (simp_all add: SingleLineReader_def)
qed

lemma read_lines:
  assumes "read (SingleLineReader past pr dbg) inp = (out, s)"
  shows "lines s = past @ [last (lines s)]"
  using read_reaches(3,5) [OF assms] by (metis append_butlast_last_id hist_ok_def)

text \<open>The keys of the module are keys of \<open>_getKey\<close>.\<close>

lemma getKey_single: "[c] \<noteq> ESCAPE \<Longrightarrow> getKey [c] = Inr ([c], [])"
  by (simp add: getKey_def)

lemma getKey_keys:
  "getKey CR = Inr (CR, [])" "getKey LF = Inr (LF, [])"
  "getKey INTERRUPT = Inr (INTERRUPT, [])" "getKey EOF = Inr (EOF, [])"
  "getKey BACKSPACE = Inr (BACKSPACE, [])"
  "getKey UP = Inr (UP, [])" "getKey DOWN = Inr (DOWN, [])"
  "getKey LEFT = Inr (LEFT, [])" "getKey RIGHT = Inr (RIGHT, [])"
  "getKey DELETE = Inr (DELETE, [])"
  by code_simp+

subsection \<open>Arrow keys in a session\<close>

lemma UP_DOWN_arrow [simp]: "UP \<in> set arrowKeys" "DOWN \<in> set arrowKeys" "UP \<noteq> CR" "DOWN \<noteq> CR"
  "DOWN \<noteq> UP" "UP \<noteq> DOWN" "CR \<noteq> UP" "CR \<noteq> DOWN"
  by (simp_all add: key_defs)

lemma nat_int_pred: "nat (int n - 1) = n - 1"
  by (cases n) simp_all

text \<open>What the loop body does on ArrowUp and ArrowDown in a state with a sound history.\<close>

lemma loopBody_moveLine:
  assumes "hist_ok s" and "k = UP \<and> d = - 1 \<or> k = DOWN \<and> d = 1"
  shows "\<exists>s'. loopBody s k = Inr s' \<and> lines s' = lines s
           \<and> lineIdx s' = bound (lineIdx s + d) (Some 0) (Some (int (length (lines s)) - 1))
           \<and> line s' = lines s ! nat (lineIdx s') \<and> charIdx s' = int (length (line s'))"
proof -
  define s1 where "s1 = (if debug s then emit (printHex k) (emit (CR @ CLEAR_LINE) s) else s)"
  have h1: "hist_ok s1" using assms(1) by (simp add: s1_def)
  have f: "lines s1 = lines s" "lineIdx s1 = lineIdx s" by (simp_all add: s1_def)
  have "loopBody s k = moveLineDown s1 d"
    using assms(2) by (elim disjE conjE) (simp_all add: loopBody_def s1_def Let_def)
  then show ?thesis
    by (simp add: moveLineDown_ok [OF h1] f)
qed

lemma readLoop_moveLine:
  assumes "hist_ok s" and "k = UP \<and> d = - 1 \<or> k = DOWN \<and> d = 1"
  shows "\<exists>s'. readLoop s (k @ nxt) = readLoop s' nxt \<and> hist_ok s' \<and> lines s' = lines s
           \<and> lineIdx s' = bound (lineIdx s + d) (Some 0) (Some (int (length (lines s)) - 1))
           \<and> line s' = lines s ! nat (lineIdx s') \<and> charIdx s' = int (length (line s'))"
proof -
  obtain s' where s': "loopBody s k = Inr s'" "lines s' = lines s"
      "lineIdx s' = bound (lineIdx s + d) (Some 0) (Some (int (length (lines s)) - 1))"
      "line s' = lines s ! nat (lineIdx s')" "charIdx s' = int (length (line s'))"
    using loopBody_moveLine [OF assms] by blast
  have g: "getKey k = Inr (k, [])" "k \<noteq> CR"
    using assms(2) by (auto simp: getKey_keys)
  have "hist_ok s'" using hist_ok_loopBody [OF assms(1), of k] s'(1) by simp
  moreover have "readLoop s (k @ nxt) = readLoop s' nxt"
    using g s'(1) by (simp add: readLoop_key)
  ultimately show ?thesis using s' by blast
qed

subsection \<open>Single keys in a session\<close>

lemma echo_fields [simp]:
  "lines (echo s k) = lines s" "line (echo s k) = line s" "lineIdx (echo s k) = lineIdx s"
  "charIdx (echo s k) = charIdx s" "used (echo s k) = used s"
  by (simp_all add: echo_def)

lemma loopBody_edit:
  "k \<notin> set arrowKeys \<Longrightarrow>
   loopBody s k = (case editKey (echo s k) k of Inl err \<Rightarrow> Inl err | Inr s1 \<Rightarrow> storeLine s1)"
  by (simp add: loopBody_def echo_def Let_def)

lemma readLoop_enter:
  "lines s \<noteq> [] \<Longrightarrow>
   readLoop s (CR @ nxt) =
     (Accepted (line s), s\<lparr>lines := butlast (lines s) @ [line s], stdout := stdout s @ LF\<rparr>)"
  by (simp add: readLoop_key [OF getKey_keys(1)] storeLine_eq emit_def)

lemma not_arrow [simp]:
  "LF \<notin> set arrowKeys" "INTERRUPT \<notin> set arrowKeys" "EOF \<notin> set arrowKeys"
  "BACKSPACE \<notin> set arrowKeys" "DELETE \<notin> set arrowKeys" "CR \<notin> set arrowKeys"
  by (simp_all add: key_defs)

lemma loopBody_insert:
  assumes "lines s \<noteq> []" "k \<notin> set arrowKeys" "k \<noteq> BACKSPACE" "k \<noteq> DELETE"
    "k \<noteq> INTERRUPT" "k \<noteq> EOF" "k \<noteq> []" "take 1 k \<noteq> ESCAPE"
  shows "\<exists>s'. loopBody s k = Inr s'
           \<and> line s' = slice_to (line s) (charIdx s) @ k @ slice_from (line s) (charIdx s)
           \<and> charIdx s' = charIdx s + 1 \<and> lineIdx s' = lineIdx s
           \<and> lines s' = butlast (lines s) @ [line s']"
proof -
  obtain c cs where k: "k = c # cs" using assms(7) by (cases k) auto
  have "editKey (echo s k) k = Inr (insertChar (echo s k) k)"
    using assms(3-6,8) by (simp add: editKey_def k)
  then show ?thesis
    using assms(1,2) by (simp add: loopBody_edit storeLine_eq insertChar_def)
qed

lemma loopBody_interrupt:
  "loopBody s INTERRUPT = Inl (KeyboardInterrupt, echo s INTERRUPT)"
  by (simp add: loopBody_edit editKey_def) (simp add: key_defs)

lemma loopBody_eof:
  "loopBody s EOF = Inl (EOFError, echo s EOF)"
  by (simp add: loopBody_edit editKey_def) (simp add: key_defs)

subsection \<open>Keys that raise, and runs of arrow keys\<close>

lemma loopBody_unknown_escape:
  assumes "take 1 k = ESCAPE" "k \<notin> set arrowKeys" "k \<noteq> DELETE"
  shows "loopBody s k =
     Inl (Exception (''unknown ANSI escape: '' @ join '' '' (map (\<lambda>c. hex (ord c)) k)), echo s k)"
proof -
  obtain c cs where k: "k = c # cs" "[c] = ESCAPE"
    using assms(1) by (cases k) (auto simp: ESCAPE_def)
  have "k \<noteq> BACKSPACE" "k \<noteq> INTERRUPT" "k \<noteq> EOF"
    using k by (auto simp: key_defs)
  then show ?thesis
    using assms(2,3) k by (simp add: loopBody_edit editKey_def)
qed

lemma loopBody_arrow_ok:
  assumes "hist_ok s" "k \<in> set arrowKeys"
  shows "\<exists>s'. loopBody s k = Inr s' \<and> lines s' = lines s \<and> hist_ok s'"
proof -
  have "\<exists>s'. loopBody s k = Inr s'"
  proof (cases "k = UP \<or> k = DOWN")
    case True
    then show ?thesis
      using loopBody_moveLine [OF assms(1), of k "if k = UP then - 1 else 1"] by auto
  next
    case False
    then show ?thesis using assms(2) by (simp add: loopBody_def Let_def)
  qed
  then obtain s' where s': "loopBody s k = Inr s'" ..
  then have "lines s' = lines s" "hist_ok s'"
    using loopBody_arrow [OF assms(2), of s] hist_ok_loopBody [OF assms(1), of k] by simp_all
  with s' show ?thesis by blast
qed

lemma getKey_arrow: "k \<in> set arrowKeys \<Longrightarrow> getKey k = Inr (k, []) \<and> k \<noteq> CR"
  by (auto simp: arrowKeys_def getKey_keys) (simp_all add: key_defs)

lemma readLoop_arrows:
  assumes "hist_ok s" "set navs \<subseteq> set arrowKeys"
  shows "\<exists>s'. readLoop s (concat navs @ nxt) = readLoop s' nxt \<and> lines s' = lines s \<and> hist_ok s'"
  using assms
proof (induction navs arbitrary: s)
  case Nil
  then show ?case by auto
next
  case (Cons k navs)
  then have k: "k \<in> set arrowKeys" by simp
  obtain s1 where s1: "loopBody s k = Inr s1" "lines s1 = lines s" "hist_ok s1"
    using loopBody_arrow_ok [OF Cons.prems(1) k] by blast
  have "readLoop s (k @ concat navs @ nxt) = readLoop s1 (concat navs @ nxt)"
    using getKey_arrow [OF k] s1(1) by (simp add: readLoop_key)
  moreover obtain s' where "readLoop s1 (concat navs @ nxt) = readLoop s' nxt"
      "lines s' = lines s1" "hist_ok s'"
    using Cons.IH [OF s1(3)] Cons.prems(2) by auto
  ultimately show ?case using s1(2) by auto
qed

lemma loopBody_edit_stores:
  assumes "k \<notin> set arrowKeys" "loopBody s k = Inr s'"
  shows "lines s' \<noteq> [] \<and> last (lines s') = line s'"
proof (cases "editKey (echo s k) k")
  case (Inl es)
  then show ?thesis using assms by (simp add: loopBody_edit)
next
  case (Inr t)
  then have "storeLine t = Inr s'" using assms by (simp add: loopBody_edit)
  then show ?thesis by (auto simp: storeLine_eq split: if_splits)
qed

subsection \<open>Decimal numerals\<close>







section \<open>The claims\<close>

text \<open>
  C1 (as amended). When Enter is decoded, after any keys that left the session waiting
  for the next key, \<open>read\<close> returns the line of the buffer, and that line is the final
  content of the newest entry of the history, the one the session appended; the entries
  before it are those of the history the session started with, wherever the active index
  points.
\<close>

theorem enter_returns_newest_entry:
  assumes "read (SingleLineReader past pr dbg) pre = (Blocked [], s)"
  shows "read (SingleLineReader past pr dbg) (pre @ CR @ nxt) =
           (Accepted (line s), s\<lparr>lines := past @ [line s], stdout := stdout s @ LF\<rparr>)"
proof -
  have ne: "lines s \<noteq> []" using read_reaches(3) [OF assms] by (simp add: hist_ok_def)
  have bl: "butlast (lines s) = past" by (rule read_reaches(5) [OF assms])
  have "read (SingleLineReader past pr dbg) (pre @ CR @ nxt) = readLoop s (CR @ nxt)"
    by (rule read_append [OF assms])
  also have "\<dots> = (Accepted (line s), s\<lparr>lines := past @ [line s], stdout := stdout s @ LF\<rparr>)"
    using ne bl by (simp add: readLoop_key [OF getKey_keys(1)] storeLine_eq emit_def)
  finally show ?thesis .
qed

theorem enter_returns_newest_entry_witness:
  "fst (read (SingleLineReader [''foo''] ''> '' False) (UP @ ''x'')) = Blocked []
   \<and> fst (read (SingleLineReader [''foo''] ''> '' False) ((UP @ ''x'') @ CR @ ''zz'')) = Accepted ''foox''
   \<and> lines (snd (read (SingleLineReader [''foo''] ''> '' False) ((UP @ ''x'') @ CR @ ''zz'')))
       = [''foo'', ''foox'']"
proof -
  let ?r = "read (SingleLineReader [''foo''] ''> '' False) (UP @ ''x'')"
  have b: "fst ?r = Blocked []" by code_simp
  have l: "line (snd ?r) = ''foox''" by code_simp
  have h: "?r = (Blocked [], snd ?r)" using b by (simp add: prod_eq_iff)
  show ?thesis using b l enter_returns_newest_entry [OF h, of "''zz''"] by simp
qed

theorem enter_active_index_counterexample:
  "fst (read (SingleLineReader [''foo''] ''> '' False) (UP @ ''x'' @ CR)) = Accepted ''foox''
   \<and> lineIdx (snd (read (SingleLineReader [''foo''] ''> '' False) (UP @ ''x'' @ CR))) = 0
   \<and> py_getitem (lines (snd (read (SingleLineReader [''foo''] ''> '' False) (UP @ ''x'' @ CR))))
        (lineIdx (snd (read (SingleLineReader [''foo''] ''> '' False) (UP @ ''x'' @ CR))))
       = Some ''foo''"
  by code_simp

text \<open>
  C2 (as amended). During a session, for every input, every entry of the history other
  than the newest one (the entry the session appended) keeps its value: the lines before
  the last are those the session started with, whatever the active index is. Only the
  newest entry is overwritten, and an arrow key overwrites no entry at all.
\<close>

theorem only_newest_entry_overwritten:
  assumes "read (SingleLineReader past pr dbg) inp = (out, s)"
  shows "length (lines s) = length past + 1 \<and> take (length past) (lines s) = past
         \<and> (k \<in> set arrowKeys \<longrightarrow> lines (state_of (loopBody s k)) = lines s)"
proof -
  have l: "lines s = past @ [last (lines s)]" by (rule read_lines [OF assms])
  have "length (lines s) = length past + 1"
    using read_reaches(4) [OF assms] by simp
  moreover have "take (length past) (lines s) = past"
    by (subst l) simp
  ultimately show ?thesis by (simp add: loopBody_arrow)
qed

theorem only_newest_entry_overwritten_witness:
  "length (lines (snd (read (SingleLineReader [''foo'', ''bar''] ''> '' False) (UP @ UP @ ''x'' @ LEFT))))
     = length [''foo'', ''bar''] + 1
   \<and> take (length [''foo'', ''bar''])
        (lines (snd (read (SingleLineReader [''foo'', ''bar''] ''> '' False) (UP @ UP @ ''x'' @ LEFT))))
     = [''foo'', ''bar'']
   \<and> UP \<in> set arrowKeys
   \<and> lines (state_of (loopBody
        (snd (read (SingleLineReader [''foo'', ''bar''] ''> '' False) (UP @ UP @ ''x'' @ LEFT))) UP))
     = [''foo'', ''bar'', ''foox'']"
proof -
  let ?r = "read (SingleLineReader [''foo'', ''bar''] ''> '' False) (UP @ UP @ ''x'' @ LEFT)"
  have h: "?r = (fst ?r, snd ?r)" by simp
  have u: "UP \<in> set arrowKeys" by (simp add: arrowKeys_def)
  have l: "lines (snd ?r) = [''foo'', ''bar'', ''foox'']" by code_simp
  show ?thesis
    using only_newest_entry_overwritten [OF h, of UP] u l by simp
qed

theorem active_entry_counterexample:
  "lineIdx (snd (read (SingleLineReader [''foo''] ''> '' False) UP)) = 0
   \<and> lines (snd (read (SingleLineReader [''foo''] ''> '' False) UP)) = [''foo'', []]
   \<and> lineIdx (snd (read (SingleLineReader [''foo''] ''> '' False) (UP @ ''x''))) = 0
   \<and> lines (snd (read (SingleLineReader [''foo''] ''> '' False) (UP @ ''x''))) = [''foo'', ''foox'']"
  by code_simp

text \<open>
  C3. For every input of a session, whatever keys it holds, the cursor index is at least
  0 and at most the length of the line in the state the session reaches; and from that
  state any further key, whether it is handled or raises, leaves the cursor within these
  bounds again.
\<close>

theorem cursor_within_line:
  assumes "read (SingleLineReader past pr dbg) inp = (out, s)"
  shows "0 \<le> charIdx s \<and> charIdx s \<le> int (length (line s))
         \<and> 0 \<le> charIdx (state_of (loopBody s k))
         \<and> charIdx (state_of (loopBody s k)) \<le> int (length (line (state_of (loopBody s k))))"
proof -
  have c: "cursor_ok s" by (rule read_reaches(1) [OF assms])
  then have "cursor_ok (state_of (loopBody s k))" by (rule cursor_ok_loopBody)
  with c show ?thesis by (simp add: cursor_ok_def)
qed

theorem cursor_within_line_witness:
  "0 \<le> charIdx (snd (read (SingleLineReader [''foo''] [] False) (''ab'' @ LEFT @ LEFT @ LEFT @ BACKSPACE)))
   \<and> charIdx (snd (read (SingleLineReader [''foo''] [] False) (''ab'' @ LEFT @ LEFT @ LEFT @ BACKSPACE)))
       \<le> int (length (line (snd (read (SingleLineReader [''foo''] [] False) (''ab'' @ LEFT @ LEFT @ LEFT @ BACKSPACE)))))
   \<and> charIdx (snd (read (SingleLineReader [''foo''] [] False) (''ab'' @ LEFT @ LEFT @ LEFT @ BACKSPACE))) = 0"
proof -
  let ?r = "read (SingleLineReader [''foo''] [] False) (''ab'' @ LEFT @ LEFT @ LEFT @ BACKSPACE)"
  have h: "?r = (fst ?r, snd ?r)" by simp
  have z: "charIdx (snd ?r) = 0" by code_simp
  show ?thesis using cursor_within_line [OF h, of RIGHT] z by simp
qed

text \<open>
  C4 (as amended). ArrowUp at the oldest entry and ArrowDown at the newest entry leave the
  active index and the history unchanged, but they are not no-ops: the buffer is loaded
  again from the stored entry at the active index and the cursor is put at the end of
  the line. At the newest entry the stored entry is the buffer, so ArrowDown keeps the
  text and only moves the cursor to its end; at the oldest entry ArrowUp replaces the
  buffer by the stored oldest entry. Nothing changes exactly when the buffer already
  holds the stored entry and the cursor is at its end.
\<close>

theorem arrow_at_history_end:
  assumes "read (SingleLineReader past pr dbg) pre = (Blocked [], s)"
  shows "(lineIdx s = 0 \<longrightarrow>
           (\<exists>s'. read (SingleLineReader past pr dbg) (pre @ UP) = (Blocked [], s')
              \<and> lineIdx s' = lineIdx s \<and> lines s' = lines s
              \<and> line s' = lines s ! 0 \<and> charIdx s' = int (length (lines s ! 0))))
       \<and> (lineIdx s = int (length (lines s)) - 1 \<longrightarrow>
           (\<exists>s'. read (SingleLineReader past pr dbg) (pre @ DOWN) = (Blocked [], s')
              \<and> lineIdx s' = lineIdx s \<and> lines s' = lines s
              \<and> line s' = line s \<and> charIdx s' = int (length (line s))))"
proof (intro conjI impI)
  have h: "hist_ok s" by (rule read_reaches(3) [OF assms])
  have n: "newest_ok s" by (rule read_reaches(2) [OF assms])
  {
    assume z: "lineIdx s = 0"
    obtain s' where s': "readLoop s (UP @ []) = readLoop s' []" "lines s' = lines s"
        "lineIdx s' = bound (lineIdx s + (- 1)) (Some 0) (Some (int (length (lines s)) - 1))"
        "line s' = lines s ! nat (lineIdx s')" "charIdx s' = int (length (line s'))"
      using readLoop_moveLine [OF h, of UP "- 1" "[]"] by auto
    have i: "lineIdx s' = 0" using z h by (simp add: s'(3) bound_def hist_ok_def)
    have "read (SingleLineReader past pr dbg) (pre @ UP) = (Blocked [], s')"
      using read_append [OF assms, of UP] s'(1) by simp
    then show "\<exists>s'. read (SingleLineReader past pr dbg) (pre @ UP) = (Blocked [], s')
              \<and> lineIdx s' = lineIdx s \<and> lines s' = lines s
              \<and> line s' = lines s ! 0 \<and> charIdx s' = int (length (lines s ! 0))"
      using s'(2,4,5) i z by auto
  }
  {
    assume z: "lineIdx s = int (length (lines s)) - 1"
    obtain s' where s': "readLoop s (DOWN @ []) = readLoop s' []" "lines s' = lines s"
        "lineIdx s' = bound (lineIdx s + 1) (Some 0) (Some (int (length (lines s)) - 1))"
        "line s' = lines s ! nat (lineIdx s')" "charIdx s' = int (length (line s'))"
      using readLoop_moveLine [OF h, of DOWN 1 "[]"] by auto
    have i: "lineIdx s' = lineIdx s" using z h by (simp add: s'(3) bound_def hist_ok_def)
    have "line s = last (lines s)" using n z by (simp add: newest_ok_def)
    also have "\<dots> = lines s ! nat (lineIdx s)"
      using h z by (simp add: hist_ok_def last_conv_nth nat_int_pred)
    finally have l: "line s' = line s" using s'(4) i by simp
    have "read (SingleLineReader past pr dbg) (pre @ DOWN) = (Blocked [], s')"
      using read_append [OF assms, of DOWN] s'(1) by simp
    then show "\<exists>s'. read (SingleLineReader past pr dbg) (pre @ DOWN) = (Blocked [], s')
              \<and> lineIdx s' = lineIdx s \<and> lines s' = lines s
              \<and> line s' = line s \<and> charIdx s' = int (length (line s))"
      using s'(2,5) i l by auto
  }
qed

theorem arrow_at_history_end_witness:
  "fst (read (SingleLineReader [''foo''] [] False) (UP @ ''x'')) = Blocked []
   \<and> lineIdx (snd (read (SingleLineReader [''foo''] [] False) (UP @ ''x''))) = 0
   \<and> line (snd (read (SingleLineReader [''foo''] [] False) (UP @ ''x''))) = ''foox''
   \<and> (\<exists>s'. read (SingleLineReader [''foo''] [] False) ((UP @ ''x'') @ UP) = (Blocked [], s')
         \<and> lineIdx s' = 0 \<and> line s' = ''foo'' \<and> charIdx s' = 3)
   \<and> fst (read (SingleLineReader [''foo''] [] False) (''ab'' @ LEFT)) = Blocked []
   \<and> lineIdx (snd (read (SingleLineReader [''foo''] [] False) (''ab'' @ LEFT))) = 1
   \<and> charIdx (snd (read (SingleLineReader [''foo''] [] False) (''ab'' @ LEFT))) = 1
   \<and> (\<exists>s'. read (SingleLineReader [''foo''] [] False) ((''ab'' @ LEFT) @ DOWN) = (Blocked [], s')
         \<and> lineIdx s' = 1 \<and> line s' = ''ab'' \<and> charIdx s' = 2)"
proof -
  let ?r = "read (SingleLineReader [''foo''] [] False) (UP @ ''x'')"
  let ?q = "read (SingleLineReader [''foo''] [] False) (''ab'' @ LEFT)"
  have r: "fst ?r = Blocked []" "lineIdx (snd ?r) = 0" "line (snd ?r) = ''foox''"
    "lines (snd ?r) = [''foo'', ''foox'']"
    by code_simp+
  have q: "fst ?q = Blocked []" "lineIdx (snd ?q) = 1" "charIdx (snd ?q) = 1"
    "line (snd ?q) = ''ab''" "lines (snd ?q) = [''foo'', ''ab'']"
    by code_simp+
  have hr: "?r = (Blocked [], snd ?r)" using r(1) by (simp add: prod_eq_iff)
  have hq: "?q = (Blocked [], snd ?q)" using q(1) by (simp add: prod_eq_iff)
  show ?thesis
    using arrow_at_history_end [OF hr] arrow_at_history_end [OF hq] r q by simp blast
qed

theorem arrow_at_history_end_counterexample:
  "lineIdx (snd (read (SingleLineReader [] [] False) (''ab'' @ LEFT)))
     = int (length (lines (snd (read (SingleLineReader [] [] False) (''ab'' @ LEFT))))) - 1
   \<and> charIdx (snd (read (SingleLineReader [] [] False) (''ab'' @ LEFT))) = 1
   \<and> charIdx (snd (read (SingleLineReader [] [] False) (''ab'' @ LEFT @ DOWN))) = 2
   \<and> lineIdx (snd (read (SingleLineReader [''foo''] [] False) (UP @ ''x''))) = 0
   \<and> line (snd (read (SingleLineReader [''foo''] [] False) (UP @ ''x''))) = ''foox''
   \<and> line (snd (read (SingleLineReader [''foo''] [] False) (UP @ ''x'' @ UP))) = ''foo''"
  by code_simp

text \<open>
  C5. Whenever a session waits for a key with the active index at the newest entry,
  whatever was typed before, ArrowUp followed by ArrowDown brings back the very text of
  the buffer, with the active index at the newest entry again and the history as it was;
  in between, if there is an older entry, ArrowUp shows the one just before the newest.
  The text comes back from the history, where every editing key has stored it.
\<close>

theorem up_then_down_restores:
  assumes "read (SingleLineReader past pr dbg) pre = (Blocked [], s)"
    and "lineIdx s = int (length (lines s)) - 1"
  shows "\<exists>s1 s2. read (SingleLineReader past pr dbg) (pre @ UP) = (Blocked [], s1)
           \<and> (past \<noteq> [] \<longrightarrow> lineIdx s1 = lineIdx s - 1 \<and> line s1 = last past)
           \<and> read (SingleLineReader past pr dbg) (pre @ UP @ DOWN) = (Blocked [], s2)
           \<and> line s2 = line s \<and> lineIdx s2 = lineIdx s \<and> lines s2 = lines s
           \<and> last (lines s) = line s"
proof -
  have h: "hist_ok s" by (rule read_reaches(3) [OF assms(1)])
  have n: "newest_ok s" by (rule read_reaches(2) [OF assms(1)])
  have len: "length (lines s) = Suc (length past)" by (rule read_reaches(4) [OF assms(1)])
  have bl: "butlast (lines s) = past" by (rule read_reaches(5) [OF assms(1)])
  obtain s1 where s1: "\<And>nxt. readLoop s (UP @ nxt) = readLoop s1 nxt" "hist_ok s1"
      "lines s1 = lines s"
      "lineIdx s1 = bound (lineIdx s + (- 1)) (Some 0) (Some (int (length (lines s)) - 1))"
      "line s1 = lines s ! nat (lineIdx s1)"
  proof -
    obtain t where t: "loopBody s UP = Inr t" "lines t = lines s"
      "lineIdx t = bound (lineIdx s + (- 1)) (Some 0) (Some (int (length (lines s)) - 1))"
      "line t = lines s ! nat (lineIdx t)"
      using loopBody_moveLine [OF h, of UP "- 1"] by auto
    have "hist_ok t" using hist_ok_loopBody [OF h, of UP] t(1) by simp
    moreover have "\<And>nxt. readLoop s (UP @ nxt) = readLoop t nxt"
      using t(1) by (simp add: readLoop_key getKey_keys)
    ultimately show ?thesis using that t by blast
  qed
  obtain s2 where s2: "readLoop s1 (DOWN @ []) = readLoop s2 []" "lines s2 = lines s1"
      "lineIdx s2 = bound (lineIdx s1 + 1) (Some 0) (Some (int (length (lines s1)) - 1))"
      "line s2 = lines s1 ! nat (lineIdx s2)"
    using readLoop_moveLine [OF s1(2), of DOWN 1 "[]"] by auto
  have i1: "lineIdx s1 = max 0 (lineIdx s - 1)"
    using h assms(2) by (simp add: s1(4) bound_def hist_ok_def)
  have i2: "lineIdx s2 = lineIdx s"
    using h assms(2) i1 by (simp add: s2(3) s1(3) bound_def hist_ok_def)
  have ls: "line s = last (lines s)" using n assms(2) by (simp add: newest_ok_def)
  also have "\<dots> = lines s ! nat (lineIdx s)"
    using h assms(2) by (simp add: hist_ok_def last_conv_nth nat_int_pred)
  finally have l2: "line s2 = line s" using s2(4) s1(3) i2 by simp
  have r1: "read (SingleLineReader past pr dbg) (pre @ UP) = (Blocked [], s1)"
    using read_append [OF assms(1), of UP] s1(1) [of "[]"] by simp
  have r2: "read (SingleLineReader past pr dbg) (pre @ UP @ DOWN) = (Blocked [], s2)"
    using read_append [OF assms(1), of "UP @ DOWN"] s1(1) [of DOWN] s2(1) by simp
  have older: "lineIdx s1 = lineIdx s - 1 \<and> line s1 = last past" if "past \<noteq> []"
  proof -
    have a: "lineIdx s1 = lineIdx s - 1" using that len assms(2) i1 by simp
    have "lines s = past @ [last (lines s)]" by (rule read_lines [OF assms(1)])
    then have "lines s ! (length past - 1) = past ! (length past - 1)"
      using that by (metis diff_less length_greater_0_conv nth_append zero_less_one)
    moreover have "nat (lineIdx s1) = length past - 1"
      using a assms(2) len by simp
    ultimately show ?thesis using a s1(5) that by (simp add: last_conv_nth)
  qed
  show ?thesis using r1 r2 l2 i2 s2(2) s1(3) older ls by auto
qed

theorem up_then_down_restores_witness:
  "fst (read (SingleLineReader [''foo''] ''> '' False) ''abc'') = Blocked []
   \<and> lineIdx (snd (read (SingleLineReader [''foo''] ''> '' False) ''abc'')) = 1
   \<and> line (snd (read (SingleLineReader [''foo''] ''> '' False) ''abc'')) = ''abc''
   \<and> (\<exists>s1 s2. read (SingleLineReader [''foo''] ''> '' False) (''abc'' @ UP) = (Blocked [], s1)
         \<and> line s1 = ''foo''
         \<and> read (SingleLineReader [''foo''] ''> '' False) (''abc'' @ UP @ DOWN) = (Blocked [], s2)
         \<and> line s2 = ''abc'' \<and> lineIdx s2 = 1)"
proof -
  let ?r = "read (SingleLineReader [''foo''] ''> '' False) ''abc''"
  have r: "fst ?r = Blocked []" "lineIdx (snd ?r) = 1" "line (snd ?r) = ''abc''"
    "lines (snd ?r) = [''foo'', ''abc'']"
    by code_simp+
  have hr: "?r = (Blocked [], snd ?r)" using r(1) by (simp add: prod_eq_iff)
  have idx: "lineIdx (snd ?r) = int (length (lines (snd ?r))) - 1" using r by simp
  show ?thesis
    using up_then_down_restores [OF hr idx] r by simp blast
qed

text \<open>
  C6 (as amended). The decoder returns the carriage return and the line feed each as a
  key of one character, and only the carriage return is Enter: received when the session
  waits for a key it ends the session as accepted with the line of the buffer, while a
  line feed is inserted into the line at the cursor like any printable character and the
  session goes on. No key other than the carriage return ends the session as accepted:
  after any such key the session either waits for the next key or has raised.
\<close>

theorem only_carriage_return_accepts:
  assumes "read (SingleLineReader past pr dbg) pre = (Blocked [], s)"
  shows "getKey (CR @ nxt) = Inr (CR, nxt) \<and> getKey (LF @ nxt) = Inr (LF, nxt)
       \<and> fst (read (SingleLineReader past pr dbg) (pre @ CR @ nxt)) = Accepted (line s)
       \<and> (\<exists>s'. read (SingleLineReader past pr dbg) (pre @ LF) = (Blocked [], s')
             \<and> line s' = take (nat (charIdx s)) (line s) @ LF @ drop (nat (charIdx s)) (line s)
             \<and> charIdx s' = charIdx s + 1)
       \<and> (\<forall>k. getKey k = Inr (k, []) \<and> k \<noteq> CR \<longrightarrow>
             fst (read (SingleLineReader past pr dbg) (pre @ k)) = Blocked []
             \<or> (\<exists>e. fst (read (SingleLineReader past pr dbg) (pre @ k)) = Raised e))"
proof -
  have ne: "lines s \<noteq> []" using read_reaches(3) [OF assms] by (simp add: hist_ok_def)
  have c: "0 \<le> charIdx s" using read_reaches(1) [OF assms] by (simp add: cursor_ok_def)
  have k: "getKey (CR @ nxt) = Inr (CR, nxt)" "getKey (LF @ nxt) = Inr (LF, nxt)"
    using getKey_append [OF getKey_keys(1), of nxt] getKey_append [OF getKey_keys(2), of nxt]
    by simp_all
  have a: "fst (read (SingleLineReader past pr dbg) (pre @ CR @ nxt)) = Accepted (line s)"
    using read_append [OF assms, of "CR @ nxt"] by (simp add: readLoop_enter [OF ne])
  have lf: "LF \<noteq> BACKSPACE" "LF \<noteq> DELETE" "LF \<noteq> INTERRUPT" "LF \<noteq> EOF" "LF \<noteq> []"
    "take 1 LF \<noteq> ESCAPE" "LF \<noteq> CR"
    by (simp_all add: key_defs)
  obtain s' where s': "loopBody s LF = Inr s'"
      "line s' = slice_to (line s) (charIdx s) @ LF @ slice_from (line s) (charIdx s)"
      "charIdx s' = charIdx s + 1"
    using loopBody_insert [OF ne not_arrow(1) lf(1-6)] by blast
  have "readLoop s (LF @ []) = (Blocked [], s')"
    using readLoop_key [OF getKey_keys(2), of s "[]"] s'(1) lf(7) by simp
  then have "read (SingleLineReader past pr dbg) (pre @ LF) = (Blocked [], s')"
    using read_append [OF assms, of LF] by simp
  moreover have "line s' = take (nat (charIdx s)) (line s) @ LF @ drop (nat (charIdx s)) (line s)"
    using s'(2) c by (simp add: slice_to_def slice_from_def)
  moreover have "fst (read (SingleLineReader past pr dbg) (pre @ k)) = Blocked []
      \<or> (\<exists>e. fst (read (SingleLineReader past pr dbg) (pre @ k)) = Raised e)"
    if "getKey k = Inr (k, [])" "k \<noteq> CR" for k
  proof -
    have "read (SingleLineReader past pr dbg) (pre @ k) = readLoop s (k @ [])"
      using read_append [OF assms, of k] by simp
    also have "\<dots> = (case loopBody s k of
        Inl (err, s1) \<Rightarrow> (Raised err, s1) | Inr s1 \<Rightarrow> readLoop s1 [])"
      using readLoop_key [OF that(1), of s "[]"] that(2) by simp
    finally show ?thesis by (auto split: sum.splits prod.splits)
  qed
  ultimately show ?thesis using k a s'(3) by blast
qed

theorem only_carriage_return_accepts_witness:
  "fst (read (SingleLineReader [''foo''] ''> '' False) (''ab'' @ LEFT)) = Blocked []
   \<and> fst (read (SingleLineReader [''foo''] ''> '' False) ((''ab'' @ LEFT) @ CR @ ''zz'')) = Accepted ''ab''
   \<and> (\<exists>s'. read (SingleLineReader [''foo''] ''> '' False) ((''ab'' @ LEFT) @ LF) = (Blocked [], s')
         \<and> line s' = ''a'' @ LF @ ''b'' \<and> charIdx s' = 2)
   \<and> getKey DELETE = Inr (DELETE, []) \<and> DELETE \<noteq> CR
   \<and> (fst (read (SingleLineReader [''foo''] ''> '' False) ((''ab'' @ LEFT) @ DELETE)) = Blocked []
       \<or> (\<exists>e. fst (read (SingleLineReader [''foo''] ''> '' False) ((''ab'' @ LEFT) @ DELETE)) = Raised e))"
proof -
  let ?r = "read (SingleLineReader [''foo''] ''> '' False) (''ab'' @ LEFT)"
  have r: "fst ?r = Blocked []" "line (snd ?r) = ''ab''" "charIdx (snd ?r) = 1"
    by code_simp+
  have d: "getKey DELETE = Inr (DELETE, [])" "DELETE \<noteq> CR" by code_simp+
  have hr: "?r = (Blocked [], snd ?r)" using r(1) by (simp add: prod_eq_iff)
  have t: "getKey (CR @ ''zz'') = Inr (CR, ''zz'') \<and> getKey (LF @ ''zz'') = Inr (LF, ''zz'')
       \<and> fst (read (SingleLineReader [''foo''] ''> '' False) ((''ab'' @ LEFT) @ CR @ ''zz''))
           = Accepted (line (snd ?r))
       \<and> (\<exists>s'. read (SingleLineReader [''foo''] ''> '' False) ((''ab'' @ LEFT) @ LF) = (Blocked [], s')
             \<and> line s' = take (nat (charIdx (snd ?r))) (line (snd ?r)) @ LF
                 @ drop (nat (charIdx (snd ?r))) (line (snd ?r))
             \<and> charIdx s' = charIdx (snd ?r) + 1)
       \<and> (\<forall>k. getKey k = Inr (k, []) \<and> k \<noteq> CR \<longrightarrow>
             fst (read (SingleLineReader [''foo''] ''> '' False) ((''ab'' @ LEFT) @ k)) = Blocked []
             \<or> (\<exists>e. fst (read (SingleLineReader [''foo''] ''> '' False) ((''ab'' @ LEFT) @ k)) = Raised e))"
    by (rule only_carriage_return_accepts [OF hr])
  then have "fst (read (SingleLineReader [''foo''] ''> '' False) ((''ab'' @ LEFT) @ DELETE)) = Blocked []
       \<or> (\<exists>e. fst (read (SingleLineReader [''foo''] ''> '' False) ((''ab'' @ LEFT) @ DELETE)) = Raised e)"
    using d by blast
  moreover have "\<exists>s'. read (SingleLineReader [''foo''] ''> '' False) ((''ab'' @ LEFT) @ LF) = (Blocked [], s')
         \<and> line s' = ''a'' @ LF @ ''b'' \<and> charIdx s' = 2"
    using t r by simp
  moreover have "fst (read (SingleLineReader [''foo''] ''> '' False) ((''ab'' @ LEFT) @ CR @ ''zz'')) = Accepted ''ab''"
    using t r by simp
  ultimately show ?thesis using r(1) d by blast
qed

theorem line_feed_counterexample:
  "fst (read (SingleLineReader [] [] False) LF) = Blocked []
   \<and> line (snd (read (SingleLineReader [] [] False) LF)) = LF
   \<and> fst (read (SingleLineReader [] [] False) CR) = Accepted []"
  by code_simp

text \<open>
  C7 (as amended). Whenever a session waits for the first character of a key, whatever
  was typed before, the interrupt byte makes \<open>read\<close> raise \<open>KeyboardInterrupt\<close>: no
  line is returned, whatever input follows. The end-of-input byte in its place raises
  \<open>EOFError\<close>, a different exception. Neither changes the history or the buffer.
  Inside an escape sequence that is not complete yet, \<open>_getKey\<close> appends the byte to the
  sequence instead and nothing is raised.
\<close>

theorem interrupt_cancels:
  assumes "read (SingleLineReader past pr dbg) pre = (Blocked [], s)"
  shows "\<exists>s1 s2. read (SingleLineReader past pr dbg) (pre @ INTERRUPT @ nxt) = (Raised KeyboardInterrupt, s1)
           \<and> read (SingleLineReader past pr dbg) (pre @ EOF @ nxt) = (Raised EOFError, s2)
           \<and> KeyboardInterrupt \<noteq> EOFError
           \<and> (\<forall>l. fst (read (SingleLineReader past pr dbg) (pre @ INTERRUPT @ nxt)) \<noteq> Accepted l)
           \<and> lines s1 = lines s \<and> line s1 = line s \<and> lines s2 = lines s \<and> line s2 = line s"
proof -
  have ne: "INTERRUPT \<noteq> CR" "EOF \<noteq> CR" by (simp_all add: key_defs)
  have "readLoop s (INTERRUPT @ nxt) = (Raised KeyboardInterrupt, echo s INTERRUPT)"
    using ne by (simp add: readLoop_key [OF getKey_keys(3)] loopBody_interrupt)
  then have i: "read (SingleLineReader past pr dbg) (pre @ INTERRUPT @ nxt)
      = (Raised KeyboardInterrupt, echo s INTERRUPT)"
    using read_append [OF assms, of "INTERRUPT @ nxt"] by simp
  have "readLoop s (EOF @ nxt) = (Raised EOFError, echo s EOF)"
    using ne by (simp add: readLoop_key [OF getKey_keys(4)] loopBody_eof)
  then have e: "read (SingleLineReader past pr dbg) (pre @ EOF @ nxt)
      = (Raised EOFError, echo s EOF)"
    using read_append [OF assms, of "EOF @ nxt"] by simp
  show ?thesis using i e by simp
qed

theorem interrupt_cancels_witness:
  "fst (read (SingleLineReader [''foo''] ''> '' True) (''ab'' @ UP @ LEFT)) = Blocked []
   \<and> fst (read (SingleLineReader [''foo''] ''> '' True) ((''ab'' @ UP @ LEFT) @ INTERRUPT @ ''c'' @ CR))
       = Raised KeyboardInterrupt
   \<and> fst (read (SingleLineReader [''foo''] ''> '' True) ((''ab'' @ UP @ LEFT) @ EOF @ ''c'' @ CR))
       = Raised EOFError"
proof -
  let ?r = "read (SingleLineReader [''foo''] ''> '' True) (''ab'' @ UP @ LEFT)"
  have r: "fst ?r = Blocked []" by code_simp
  have hr: "?r = (Blocked [], snd ?r)" using r(1) by (simp add: prod_eq_iff)
  obtain s1 s2 where
    "read (SingleLineReader [''foo''] ''> '' True) ((''ab'' @ UP @ LEFT) @ INTERRUPT @ ''c'' @ CR)
       = (Raised KeyboardInterrupt, s1)"
    "read (SingleLineReader [''foo''] ''> '' True) ((''ab'' @ UP @ LEFT) @ EOF @ ''c'' @ CR)
       = (Raised EOFError, s2)"
    using interrupt_cancels [OF hr, of "''c'' @ CR"] by blast
  then show ?thesis using r by simp
qed

theorem interrupt_inside_escape_counterexample:
  "fst (read (SingleLineReader [] [] False) (''ab'' @ ESCAPE @ INTERRUPT @ ''c'' @ CR))
     = Blocked (ESCAPE @ INTERRUPT @ ''c'' @ CR)
   \<and> line (snd (read (SingleLineReader [] [] False) (''ab'' @ ESCAPE @ INTERRUPT @ ''c'' @ CR))) = ''ab''"
  by code_simp

text \<open>
  C8 (as amended). Take a session that ends in an exception: after any keys, the last key
  that was not an arrow key left the buffer with a text (\<open>line s1\<close>; the empty text when
  no key came before), then arrow keys may follow, and then comes the interrupt byte, the
  end-of-input byte or an escape sequence the reader does not know. Then \<open>read\<close> raises,
  and the history it leaves is the history before the session with one more entry, which
  holds that text: the buffer as the last key other than an arrow key left it. That need
  be neither the text typed at the newest entry nor the buffer shown when the exception
  is raised.
\<close>

theorem error_keeps_appended_entry:
  assumes "read (SingleLineReader past pr dbg) pre = (Blocked [], s0)"
    and "k = [] \<and> pre = [] \<or> getKey k = Inr (k, []) \<and> k \<notin> set arrowKeys"
    and "read (SingleLineReader past pr dbg) (pre @ k) = (Blocked [], s1)"
    and "set navs \<subseteq> set arrowKeys"
    and "bad = INTERRUPT \<or> bad = EOF
         \<or> getKey bad = Inr (bad, []) \<and> take 1 bad = ESCAPE \<and> bad \<notin> set arrowKeys \<and> bad \<noteq> DELETE"
  shows "\<exists>e s'. read (SingleLineReader past pr dbg) (pre @ k @ concat navs @ bad @ nxt) = (Raised e, s')
           \<and> length (lines s') = length past + 1 \<and> lines s' = past @ [line s1]"
proof -
  have h1: "hist_ok s1" by (rule read_reaches(3) [OF assms(3)])
  have stored: "last (lines s1) = line s1"
    using assms(2)
  proof
    assume "k = [] \<and> pre = []"
    then have "s1 = emit pr ((SingleLineReader past pr dbg)\<lparr>used := True\<rparr>)"
      using assms(3) by (simp add: read_fresh)
    then show ?thesis by (simp add: SingleLineReader_def)
  next
    assume a: "getKey k = Inr (k, []) \<and> k \<notin> set arrowKeys"
    have "readLoop s0 (k @ []) = (Blocked [], s1)"
      using read_append [OF assms(1), of k] assms(3) by simp
    then have "loopBody s0 k = Inr s1"
      using a readLoop_key [of k s0 "[]"]
      by (auto split: if_splits sum.splits prod.splits)
    then show ?thesis using a loopBody_edit_stores by blast
  qed
  have l1: "lines s1 = past @ [line s1]"
    using read_lines [OF assms(3)] stored by simp
  obtain s2 where s2: "readLoop s1 (concat navs @ bad @ nxt) = readLoop s2 (bad @ nxt)"
      "lines s2 = lines s1"
    using readLoop_arrows [OF h1 assms(4)] by blast
  have bad: "getKey bad = Inr (bad, []) \<and> bad \<noteq> CR \<and> (\<exists>e. loopBody s2 bad = Inl (e, echo s2 bad))"
    using assms(5)
  proof (elim disjE conjE)
    assume "bad = INTERRUPT"
    then show ?thesis by (simp add: getKey_keys loopBody_interrupt) (simp add: key_defs)
  next
    assume "bad = EOF"
    then show ?thesis by (simp add: getKey_keys loopBody_eof) (simp add: key_defs)
  next
    assume b: "getKey bad = Inr (bad, [])" "take 1 bad = ESCAPE" "bad \<notin> set arrowKeys" "bad \<noteq> DELETE"
    have "bad \<noteq> CR" using b(2) by (auto simp: key_defs)
    then show ?thesis using b by (simp add: loopBody_unknown_escape)
  qed
  then obtain e where e: "loopBody s2 bad = Inl (e, echo s2 bad)" by blast
  have "readLoop s2 (bad @ nxt) = (Raised e, echo s2 bad)"
    using bad e by (simp add: readLoop_key)
  then have "read (SingleLineReader past pr dbg) (pre @ k @ concat navs @ bad @ nxt)
      = (Raised e, echo s2 bad)"
    using read_append [OF assms(3), of "concat navs @ bad @ nxt"] s2(1) by simp
  moreover have "lines (echo s2 bad) = past @ [line s1]" using s2(2) l1 by simp
  ultimately show ?thesis by auto
qed

theorem error_keeps_appended_entry_witness:
  "fst (read (SingleLineReader [''foo''] [] True) ''a'') = Blocked []
   \<and> getKey ''b'' = Inr (''b'', []) \<and> ''b'' \<notin> set arrowKeys
   \<and> fst (read (SingleLineReader [''foo''] [] True) (''a'' @ ''b'')) = Blocked []
   \<and> line (snd (read (SingleLineReader [''foo''] [] True) (''a'' @ ''b''))) = ''ab''
   \<and> set [UP, LEFT] \<subseteq> set arrowKeys
   \<and> getKey (CHR 0x1B # ''[5~'') = Inr (CHR 0x1B # ''[5~'', [])
   \<and> take 1 (CHR 0x1B # ''[5~'') = ESCAPE
   \<and> CHR 0x1B # ''[5~'' \<notin> set arrowKeys \<and> CHR 0x1B # ''[5~'' \<noteq> DELETE
   \<and> (\<exists>e s'. read (SingleLineReader [''foo''] [] True)
                 (''a'' @ ''b'' @ concat [UP, LEFT] @ (CHR 0x1B # ''[5~'') @ ''zz'') = (Raised e, s')
          \<and> lines s' = [''foo'', ''ab''])
   \<and> line (snd (read (SingleLineReader [''foo''] [] True)
                 (''a'' @ ''b'' @ concat [UP, LEFT] @ (CHR 0x1B # ''[5~'') @ ''zz''))) = ''foo''"
proof -
  let ?X = "SingleLineReader [''foo''] [] True"
  have a: "fst (read ?X ''a'') = Blocked []" by code_simp
  have b: "fst (read ?X (''a'' @ ''b'')) = Blocked []" by code_simp
  have l: "line (snd (read ?X (''a'' @ ''b''))) = ''ab''" by code_simp
  have k: "getKey ''b'' = Inr (''b'', [])" "''b'' \<notin> set arrowKeys" by code_simp+
  have n: "set [UP, LEFT] \<subseteq> set arrowKeys" by (simp add: arrowKeys_def)
  have e: "getKey (CHR 0x1B # ''[5~'') = Inr (CHR 0x1B # ''[5~'', [])"
    "take 1 (CHR 0x1B # ''[5~'') = ESCAPE"
    "CHR 0x1B # ''[5~'' \<notin> set arrowKeys" "CHR 0x1B # ''[5~'' \<noteq> DELETE"
    by code_simp+
  have f: "line (snd (read ?X (''a'' @ ''b'' @ concat [UP, LEFT] @ (CHR 0x1B # ''[5~'') @ ''zz''))) = ''foo''"
    by code_simp
  have ha: "read ?X ''a'' = (Blocked [], snd (read ?X ''a''))"
    using a by (simp add: prod_eq_iff)
  have hb: "read ?X (''a'' @ ''b'') = (Blocked [], snd (read ?X (''a'' @ ''b'')))"
    using b by (simp add: prod_eq_iff)
  have "\<exists>e s'. read ?X (''a'' @ ''b'' @ concat [UP, LEFT] @ (CHR 0x1B # ''[5~'') @ ''zz'') = (Raised e, s')
          \<and> length (lines s') = length [''foo''] + 1
          \<and> lines s' = [''foo''] @ [line (snd (read ?X (''a'' @ ''b'')))]"
    by (rule error_keeps_appended_entry [OF ha _ hb n]) (simp_all add: k e ESCAPE_def)
  then show ?thesis using a b l k n e f by (simp only: append.simps) blast
qed

theorem error_entry_counterexample:
  "fst (read (SingleLineReader [''foo''] [] False) (''abc'' @ UP @ LEFT @ LEFT @ LEFT)) = Blocked []
   \<and> lines (snd (read (SingleLineReader [''foo''] [] False) (''abc'' @ UP @ LEFT @ LEFT @ LEFT)))
       = [''foo'', ''abc'']
   \<and> fst (read (SingleLineReader [''foo''] [] False)
            (''abc'' @ UP @ LEFT @ LEFT @ LEFT @ BACKSPACE @ INTERRUPT)) = Raised KeyboardInterrupt
   \<and> lines (snd (read (SingleLineReader [''foo''] [] False)
            (''abc'' @ UP @ LEFT @ LEFT @ LEFT @ BACKSPACE @ INTERRUPT))) = [''foo'', ''foo'']
   \<and> fst (read (SingleLineReader [''foo''] [] False) (''ab'' @ UP @ INTERRUPT)) = Raised KeyboardInterrupt
   \<and> line (snd (read (SingleLineReader [''foo''] [] False) (''ab'' @ UP @ INTERRUPT))) = ''foo''
   \<and> lines (snd (read (SingleLineReader [''foo''] [] False) (''ab'' @ UP @ INTERRUPT)))
       = [''foo'', ''ab'']"
  by code_simp

text \<open>
  C9. A reader that has not been used is marked used by its first \<open>read\<close>, however that
  call ends, and every later \<open>read\<close> on it raises the exception of \<open>_use\<close> at once: it
  reads no input, prints nothing and leaves the reader as it is.
\<close>

theorem reader_single_use:
  assumes "\<not> used s" and "read s inp = (out, s')"
  shows "used s' \<and> read s' inp2 = (Raised (Exception ''using line reader multiple times''), s')"
proof -
  have "s' = snd (readLoop (emit (prompt s) (s\<lparr>used := True\<rparr>)) inp)"
    using assms by (simp add: read_def use_def)
  then have "used s'" by (simp add: readLoop_used)
  then show ?thesis by (simp add: read_def use_def)
qed

theorem reader_single_use_witness:
  "\<not> used (SingleLineReader [''foo''] ''> '' False)
   \<and> fst (read (SingleLineReader [''foo''] ''> '' False) (''ab'' @ CR)) = Accepted ''ab''
   \<and> used (snd (read (SingleLineReader [''foo''] ''> '' False) (''ab'' @ CR)))
   \<and> read (snd (read (SingleLineReader [''foo''] ''> '' False) (''ab'' @ CR))) (''cd'' @ CR)
       = (Raised (Exception ''using line reader multiple times''),
          snd (read (SingleLineReader [''foo''] ''> '' False) (''ab'' @ CR)))"
proof -
  let ?X = "SingleLineReader [''foo''] ''> '' False"
  have u: "\<not> used ?X" by (simp add: SingleLineReader_def)
  have a: "fst (read ?X (''ab'' @ CR)) = Accepted ''ab''" by code_simp
  have h: "read ?X (''ab'' @ CR) = (fst (read ?X (''ab'' @ CR)), snd (read ?X (''ab'' @ CR)))"
    by simp
  show ?thesis using reader_single_use [OF u h, of "''cd'' @ CR"] u a by simp
qed



end
